theory Spec2Isabelle
  imports Complex_Main "HOL-Library.Multiset"
begin

section \<open>Strings and paths\<close>

text \<open>
  Strings are lists of 8-bit characters. \<open>lower\<close> is Python's \<open>str.lower\<close> on the ASCII
  letters; every extension of the image allow-list is ASCII.
\<close>

definition lower_char :: "char \<Rightarrow> char" where
  "lower_char c =
     (case map_of (zip ''ABCDEFGHIJKLMNOPQRSTUVWXYZ'' ''abcdefghijklmnopqrstuvwxyz'') c of
        Some d \<Rightarrow> d
      | None \<Rightarrow> c)"

definition lower :: "string \<Rightarrow> string" where
  "lower s = map lower_char s"

text \<open>\<open>str.rfind\<close> for a single character: the last index, or \<open>-1\<close>.\<close>

definition rfind :: "char \<Rightarrow> string \<Rightarrow> int" where
  "rfind c s =
     (if c \<in> set s
      then int (length s) - 1 - int (length (takeWhile (\<lambda>x. x \<noteq> c) (rev s)))
      else - 1)"

text \<open>
  \<open>os.path.splitext\<close> (separator \<open>/\<close>): the extension starts at the last dot, when that
  dot lies after the last separator and some character between them is not a dot.
\<close>

definition splitext :: "string \<Rightarrow> string \<times> string" where
  "splitext p =
     (let sepIndex = rfind (CHR ''/'') p;
          dotIndex = rfind (CHR ''.'') p
      in if dotIndex > sepIndex \<and>
            list_ex (\<lambda>c. c \<noteq> CHR ''.'')
              (take (nat dotIndex - nat (sepIndex + 1)) (drop (nat (sepIndex + 1)) p))
         then (take (nat dotIndex) p, drop (nat dotIndex) p)
         else (p, []))"

definition image_extensions :: "string set" where
  "image_extensions =
     {''.jpg'', ''.jpeg'', ''.png'', ''.gif'', ''.bmp'', ''.webp'',
      ''.tiff'', ''.tif'', ''.ico'', ''.jfif'', ''.heic''}"

definition is_image_file :: "string \<Rightarrow> bool" where
  "is_image_file filename = (snd (splitext (lower filename)) \<in> image_extensions)"

text \<open>\<open>os.path.join\<close> of two components, \<open>os.path.basename\<close> and \<open>os.path.dirname\<close>.\<close>

definition path_join :: "string \<Rightarrow> string \<Rightarrow> string" where
  "path_join a b =
     (if b \<noteq> [] \<and> hd b = CHR ''/'' then b
      else if a = [] \<or> last a = CHR ''/'' then a @ b
      else a @ ''/'' @ b)"

definition basename :: "string \<Rightarrow> string" where
  "basename p = drop (nat (rfind (CHR ''/'') p + 1)) p"

definition dirname :: "string \<Rightarrow> string" where
  "dirname p =
     (let h = take (nat (rfind (CHR ''/'') p + 1)) p
      in if h \<noteq> [] \<and> list_ex (\<lambda>c. c \<noteq> CHR ''/'') h
         then rev (dropWhile (\<lambda>c. c = CHR ''/'') (rev h)) else h)"

section \<open>Tasks\<close>

datatype error =
    PermissionError string
  | FileNotFoundError string
  | OSError string

fun error_text :: "error \<Rightarrow> string" where
  "error_text (PermissionError m) = m"
| "error_text (FileNotFoundError m) = m"
| "error_text (OSError m) = m"

datatype status = Pending | Running | Completed | Failed | Cancelled

text \<open>
  \<open>CompressionTask\<close>. Times are the readings of \<open>time.time()\<close>, taken as rationals;
  \<open>rename_pattern\<close> is only ever tested for truth.
\<close>

record task =
  source_path :: string
  target_path :: string
  preserve_timestamp :: bool
  compression_level :: nat
  rename_pattern :: bool
  status :: status
  error :: "error option"
  start_time :: "rat option"
  end_time :: "rat option"
  image_count :: nat
  original_size :: nat
  compressed_size :: nat
  md5 :: "string option"

definition new_task :: "string \<Rightarrow> string \<Rightarrow> bool \<Rightarrow> nat \<Rightarrow> bool \<Rightarrow> task" where
  "new_task src tgt keep_ts level rename =
     \<lparr> source_path = src, target_path = tgt, preserve_timestamp = keep_ts,
       compression_level = level, rename_pattern = rename, status = Pending,
       error = None, start_time = None, end_time = None, image_count = 0,
       original_size = 0, compressed_size = 0, md5 = None \<rparr>"

record task_dict =
  d_source_path :: string
  d_target_path :: string
  d_status :: status
  d_error :: "string option"
  d_start_time :: "rat option"
  d_end_time :: "rat option"
  d_duration :: "rat option"
  d_image_count :: nat
  d_original_size :: nat
  d_compressed_size :: nat
  d_compression_ratio :: rat
  d_md5 :: "string option"

text \<open>Python's truth test of an optional number: \<open>None\<close> and zero are false.\<close>

definition truthy :: "rat option \<Rightarrow> bool" where
  "truthy t = (case t of None \<Rightarrow> False | Some x \<Rightarrow> x \<noteq> 0)"

definition to_dict :: "task \<Rightarrow> task_dict" where
  "to_dict t =
     \<lparr> d_source_path = source_path t,
       d_target_path = target_path t,
       d_status = status t,
       d_error = map_option error_text (error t),
       d_start_time = start_time t,
       d_end_time = end_time t,
       d_duration =
         (if truthy (end_time t) \<and> truthy (start_time t)
          then Some (the (end_time t) - the (start_time t)) else None),
       d_image_count = image_count t,
       d_original_size = original_size t,
       d_compressed_size = compressed_size t,
       d_compression_ratio =
         (if compressed_size t \<noteq> 0
          then of_nat (original_size t) / of_nat (compressed_size t) else 0),
       d_md5 = md5 t \<rparr>"

section \<open>The directory tree\<close>

text \<open>
  What a path holds in one snapshot of the file system: a regular file with its bytes, an
  entry that cannot be opened or measured (a dangling link), a directory that cannot be
  listed, or a directory with its entries in the order \<open>os.scandir\<close> enumerates them.
\<close>

datatype node =
    File string
  | Broken
  | Locked
  | Dir "(string \<times> node) list"

fun is_dir :: "node \<Rightarrow> bool" where
  "is_dir (Dir es) = True"
| "is_dir Locked = True"
| "is_dir n = False"

fun is_file :: "node \<Rightarrow> bool" where
  "is_file (File c) = True"
| "is_file n = False"

text \<open>
  \<open>os.walk\<close>, top down: one item \<open>(root, dirs, files)\<close> per directory that can be listed,
  then the items of the sub-directories the loop body has kept in \<open>dirs\<close>. The body's
  pruning depends on the root and the name only, so it is the argument \<open>keep\<close>. Names
  come with the node found under them. A listing error is swallowed (no \<open>onerror\<close>).
\<close>

type_synonym walk_item = "string \<times> (string \<times> node) list \<times> (string \<times> node) list"

fun walk :: "(string \<Rightarrow> string \<Rightarrow> bool) \<Rightarrow> string \<Rightarrow> node \<Rightarrow> walk_item list"
  and walk_children ::
    "(string \<Rightarrow> string \<Rightarrow> bool) \<Rightarrow> string \<Rightarrow> (string \<times> node) list \<Rightarrow> walk_item list"
where
  "walk keep r (Dir es) =
     (r, filter (\<lambda>e. is_dir (snd e)) es, filter (\<lambda>e. \<not> is_dir (snd e)) es)
       # walk_children keep r es"
| "walk keep r (File c) = []"
| "walk keep r Broken = []"
| "walk keep r Locked = []"
| "walk_children keep r [] = []"
| "walk_children keep r (e # es) =
     (if is_dir (snd e) \<and> keep r (fst e)
      then walk keep (path_join r (fst e)) (snd e) else [])
       @ walk_children keep r es"

definition keep_all :: "string \<Rightarrow> string \<Rightarrow> bool" where
  "keep_all r name = True"

fun getsize :: "string \<Rightarrow> node \<Rightarrow> error + nat" where
  "getsize path (File c) = Inr (length c)"
| "getsize path n = Inl (FileNotFoundError path)"

section \<open>Counting images\<close>

text \<open>
  The two loops of \<open>count_images_in_directory\<close>. The state is \<open>(count, total_size)\<close>; the
  second component of the result is the exception that ended the loop, if any. The count is
  raised before the size is read, so an entry that cannot be measured is still counted.
\<close>

fun count_files ::
  "string \<Rightarrow> (string \<times> node) list \<Rightarrow> nat \<times> nat \<Rightarrow> (nat \<times> nat) \<times> error option" where
  "count_files r [] acc = (acc, None)"
| "count_files r (f # fs) acc =
     (if is_image_file (fst f)
      then (case getsize (path_join r (fst f)) (snd f) of
              Inl e \<Rightarrow> ((fst acc + 1, snd acc), Some e)
            | Inr sz \<Rightarrow> count_files r fs (fst acc + 1, snd acc + sz))
      else count_files r fs acc)"

fun count_items :: "walk_item list \<Rightarrow> nat \<times> nat \<Rightarrow> (nat \<times> nat) \<times> error option" where
  "count_items [] acc = (acc, None)"
| "count_items ((r, dirs, files) # items) acc =
     (case count_files r files acc of
        (acc', Some e) \<Rightarrow> (acc', Some e)
      | (acc', None) \<Rightarrow> count_items items acc')"

text \<open>The \<open>except\<close> clause logs the error and falls through to the \<open>return\<close>.\<close>

definition count_images_in_directory :: "string \<Rightarrow> node \<Rightarrow> nat \<times> nat" where
  "count_images_in_directory directory n = fst (count_items (walk keep_all directory n) (0, 0))"

section \<open>The archiver\<close>

text \<open>
  A ZIP archive under construction is the list of entries written so far, each an archive
  name with the bytes stored under it. \<open>ZipFile.write\<close> appends: a name that is already
  present gives a second entry with the same name (the library warns and goes on).
\<close>

type_synonym zip_entry = "string \<times> string"

text \<open>
  Everything \<open>compress_directory\<close> asks of its environment: the two clock readings, the
  tree under a path, and for each file-system call what it returns or raises there.
\<close>

record world =
  clock_start :: rat
  clock_end :: rat
  tree_at :: "string \<Rightarrow> node"
  getmtime_of :: "string \<Rightarrow> error + rat"
  zip_open_fault :: "string \<Rightarrow> error option"
  zip_write_fault :: "string \<Rightarrow> error option"
  zip_close_fault :: "string \<Rightarrow> error option"
  path_exists :: "string \<Rightarrow> bool"
  remove_fault :: "string \<Rightarrow> error option"
  rename_fault :: "string \<Rightarrow> string \<Rightarrow> error option"
  utime_fault :: "string \<Rightarrow> rat \<Rightarrow> error option"
  md5_of :: "string \<Rightarrow> error + string"
  getsize_of :: "string \<Rightarrow> error + nat"
  rmtree_fault :: "string \<Rightarrow> error option"

text \<open>\<open>zipf.write(file_path, arcname=file)\<close>: the entry is named by the bare file name.\<close>

fun zip_write :: "world \<Rightarrow> string \<Rightarrow> string \<Rightarrow> node \<Rightarrow> error + zip_entry" where
  "zip_write w path arcname (File c) =
     (case zip_write_fault w path of Some e \<Rightarrow> Inl e | None \<Rightarrow> Inr (arcname, c))"
| "zip_write w path arcname n = Inl (FileNotFoundError path)"

fun zip_files ::
  "world \<Rightarrow> string \<Rightarrow> (string \<times> node) list \<Rightarrow> zip_entry list \<Rightarrow> zip_entry list \<times> error option"
where
  "zip_files w r [] zs = (zs, None)"
| "zip_files w r (f # fs) zs =
     (if is_image_file (fst f)
      then (case zip_write w (path_join r (fst f)) (fst f) (snd f) of
              Inl e \<Rightarrow> (zs, Some e)
            | Inr z \<Rightarrow> zip_files w r fs (zs @ [z]))
      else zip_files w r fs zs)"

fun zip_items ::
  "world \<Rightarrow> walk_item list \<Rightarrow> zip_entry list \<Rightarrow> zip_entry list \<times> error option" where
  "zip_items w [] zs = (zs, None)"
| "zip_items w ((r, dirs, files) # items) zs =
     (case zip_files w r files zs of
        (zs', Some e) \<Rightarrow> (zs', Some e)
      | (zs', None) \<Rightarrow> zip_items w items zs')"

text \<open>
  The \<open>with zipfile.ZipFile(...)\<close> block: open the temporary archive, write the images,
  close. An exception in the body leaves through the block, whatever the close does.
\<close>

definition write_archive :: "world \<Rightarrow> task \<Rightarrow> string \<Rightarrow> zip_entry list \<times> error option" where
  "write_archive w t temp_target_path =
     (case zip_open_fault w temp_target_path of
        Some e \<Rightarrow> ([], Some e)
      | None \<Rightarrow>
          (case zip_items w (walk keep_all (source_path t) (tree_at w (source_path t))) [] of
             (zs, Some e) \<Rightarrow> (zs, Some e)
           | (zs, None) \<Rightarrow> (zs, zip_close_fault w temp_target_path)))"

text \<open>
  \<open>number_only_pattern\<close>, the expression \<open>^(\d+)\.zip$\<close> under \<open>match\<close>: digits, then
  \<open>.zip\<close>, then the end of the string or a single final newline. Digits are the ASCII ones.
\<close>

definition is_digit :: "char \<Rightarrow> bool" where
  "is_digit c = (c \<in> set ''0123456789'')"

definition number_only_match :: "string \<Rightarrow> string option" where
  "number_only_match s =
     (let s' = (if s \<noteq> [] \<and> last s = CHR 0x0A then butlast s else s);
          ds = takeWhile is_digit s'
      in if ds \<noteq> [] \<and> dropWhile is_digit s' = ''.zip'' then Some ds else None)"

text \<open>The new name: U+7B2C, the number, U+7AE0, \<open>.zip\<close>, in UTF-8.\<close>

definition chapter_name :: "string \<Rightarrow> string" where
  "chapter_name number =
     [CHR 0xE7, CHR 0xAC, CHR 0xAC] @ number @ [CHR 0xE7, CHR 0xAB, CHR 0xA0] @ ''.zip''"

definition final_target :: "task \<Rightarrow> string" where
  "final_target t =
     (if rename_pattern t
      then (case number_only_match (basename (target_path t)) of
              Some number \<Rightarrow> path_join (dirname (target_path t)) (chapter_name number)
            | None \<Rightarrow> target_path t)
      else target_path t)"

text \<open>
  The steps after the archive is closed: replace the final file, restore the time stamp,
  hash and measure the archive, remove the source. Each returns the task as it stands when
  an exception leaves the \<open>try\<close> block.
\<close>

definition finalize :: "world \<Rightarrow> task \<Rightarrow> rat \<Rightarrow> string \<Rightarrow> task \<times> error option" where
  "finalize w t src_mtime temp_target_path =
     (let final_target_path = final_target t in
      case (if path_exists w final_target_path then remove_fault w final_target_path else None) of
        Some e \<Rightarrow> (t, Some e)
      | None \<Rightarrow>
      (case rename_fault w temp_target_path final_target_path of
        Some e \<Rightarrow> (t, Some e)
      | None \<Rightarrow>
      (let t2 = t\<lparr>target_path := final_target_path\<rparr> in
       case (if preserve_timestamp t2 then utime_fault w final_target_path src_mtime else None) of
        Some e \<Rightarrow> (t2, Some e)
      | None \<Rightarrow>
      (case md5_of w final_target_path of
        Inl e \<Rightarrow> (t2, Some e)
      | Inr h \<Rightarrow>
      (case getsize_of w final_target_path of
        Inl e \<Rightarrow> (t2\<lparr>md5 := Some h\<rparr>, Some e)
      | Inr n \<Rightarrow>
      (case rmtree_fault w (source_path t2) of
        Some e \<Rightarrow> (t2\<lparr>md5 := Some h, compressed_size := n\<rparr>, Some e)
      | None \<Rightarrow> (t2\<lparr>md5 := Some h, compressed_size := n, status := Completed\<rparr>, None)))))))"

text \<open>
  The body of the \<open>try\<close>: the task as mutated so far, the entries written to the temporary
  archive, and the exception that left the block, if any.
\<close>

definition compress_try :: "world \<Rightarrow> task \<Rightarrow> task \<times> zip_entry list \<times> error option" where
  "compress_try w t =
     (let (n, sz) = count_images_in_directory (source_path t) (tree_at w (source_path t));
          t1 = t\<lparr>image_count := n, original_size := sz\<rparr>
      in case getmtime_of w (source_path t1) of
           Inl e \<Rightarrow> (t1, [], Some e)
         | Inr src_mtime \<Rightarrow>
             (let temp_target_path = target_path t1 @ ''.temp'' in
              case write_archive w t1 temp_target_path of
                (zs, Some e) \<Rightarrow> (t1, zs, Some e)
              | (zs, None) \<Rightarrow>
                  (case finalize w t1 src_mtime temp_target_path of
                     (t', r) \<Rightarrow> (t', zs, r))))"

text \<open>
  \<open>compress_directory\<close> in its two halves, so that other calls can fall between them:
  the lines before the \<open>try\<close>, and the \<open>try\<close>/\<open>except\<close> with the final clock reading.
  The values of \<open>error\<close> stand for the exceptions the file-system and archive calls raise,
  all of them instances of \<open>Exception\<close>, which the handler catches; the lines outside the
  \<open>try\<close> raise nothing. The result is \<open>Inl\<close> for an exception that leaves the function;
  beside the task it carries the entries of the archive the run has written.
\<close>

definition compress_begin :: "rat \<Rightarrow> task \<Rightarrow> task" where
  "compress_begin now t = t\<lparr>start_time := Some now, status := Running\<rparr>"

definition compress_rest :: "world \<Rightarrow> task \<Rightarrow> error + task \<times> zip_entry list" where
  "compress_rest w t =
     (case compress_try w t of
        (t', zs, None) \<Rightarrow> Inr (t'\<lparr>end_time := Some (clock_end w)\<rparr>, zs)
      | (t', zs, Some e) \<Rightarrow>
          Inr (t'\<lparr>status := Failed, error := Some e, end_time := Some (clock_end w)\<rparr>, zs))"

definition compress_directory :: "world \<Rightarrow> task \<Rightarrow> error + task \<times> zip_entry list" where
  "compress_directory w t = compress_rest w (compress_begin (clock_start w) t)"

section \<open>The scheduler\<close>

text \<open>
  A \<open>Future\<close> of the thread pool: the task it was submitted for (an index into the task
  list), the pool it was submitted to, and its state. Every future carries the one done
  callback \<open>_task_completed\<close>. The library runs the done callbacks of a future when it
  finishes and also when it is cancelled, and swallows what a callback raises. A future
  whose function raised is finished with that exception (\<open>FRaised\<close>).
\<close>

datatype fstate = FQueued | FExecuting | FFinished | FRaised | FCancelled

record future =
  ftask :: nat
  fpool :: nat
  fstate :: fstate

text \<open>
  \<open>CompressionManager\<close>. \<open>executor\<close> names the current pool, \<open>futures\<close> lists the
  futures of the last submission. The last three fields are not attributes of the class:
  every future created so far (a future is known by its position), the number of pools
  created so far, and the calls made to \<open>update_callback\<close>, each with its progress value
  and the index of the task handed over.
\<close>

record manager =
  max_workers :: nat
  has_update_callback :: bool
  tasks :: "task list"
  completed_tasks :: nat
  total_tasks :: nat
  running :: bool
  paused :: bool
  executor :: "nat option"
  futures :: "nat list"
  all_futures :: "future list"
  pools_made :: nat
  callback_log :: "(rat \<times> nat) list"

definition init_manager :: "nat option \<Rightarrow> nat \<Rightarrow> bool \<Rightarrow> manager" where
  "init_manager workers cpu_count has_callback =
     \<lparr> max_workers = (case workers of None \<Rightarrow> cpu_count
                       | Some n \<Rightarrow> if n = 0 then cpu_count else n),
       has_update_callback = has_callback, tasks = [], completed_tasks = 0,
       total_tasks = 0, running = False, paused = False, executor = None,
       futures = [], all_futures = [], pools_made = 0, callback_log = [] \<rparr>"

definition add_task :: "string \<Rightarrow> string \<Rightarrow> bool \<Rightarrow> nat \<Rightarrow> bool \<Rightarrow> manager \<Rightarrow> manager" where
  "add_task src tgt keep_ts level rename m =
     m\<lparr>tasks := tasks m @ [new_task src tgt keep_ts level rename]\<rparr>"

text \<open>
  \<open>_task_completed\<close>, run under the lock: the counter is raised first. The division
  raises when the total is zero, and \<open>future.result()\<close> raises on a future that was
  cancelled or whose function raised; either exception ends the callback after the
  increment and is swallowed by the library.
\<close>

definition task_completed :: "nat \<Rightarrow> manager \<Rightarrow> manager" where
  "task_completed fid m =
     (let m1 = m\<lparr>completed_tasks := completed_tasks m + 1\<rparr> in
      if total_tasks m1 = 0 then m1
      else if has_update_callback m1
      then (if fstate (all_futures m1 ! fid) = FCancelled \<or>
               fstate (all_futures m1 ! fid) = FRaised then m1
            else m1\<lparr>callback_log := callback_log m1 @
                   [(of_nat (completed_tasks m1) / of_nat (total_tasks m1),
                     ftask (all_futures m1 ! fid))]\<rparr>)
      else m1)"

text \<open>A fresh pool: \<open>self.executor = ThreadPoolExecutor(...)\<close>, \<open>self.futures = []\<close>.\<close>

definition new_executor :: "manager \<Rightarrow> manager" where
  "new_executor m =
     m\<lparr>executor := Some (pools_made m), pools_made := pools_made m + 1, futures := []\<rparr>"

text \<open>
  The submission loop shared by \<open>start\<close> and \<open>resume\<close>, over the task indices: each task
  whose status is pending gets a new queued future in the current pool.
\<close>

fun submit_pending :: "nat list \<Rightarrow> manager \<Rightarrow> manager" where
  "submit_pending [] m = m"
| "submit_pending (i # is) m =
     (if status (tasks m ! i) = Pending
      then submit_pending is
             (m\<lparr>futures := futures m @ [length (all_futures m)],
                all_futures := all_futures m @
                  [\<lparr>ftask = i, fpool = the (executor m), fstate = FQueued\<rparr>]\<rparr>)
      else submit_pending is m)"

definition start :: "manager \<Rightarrow> manager" where
  "start m =
     (if running m then m
      else (let m1 = m\<lparr>running := True, paused := False, completed_tasks := 0,
                        total_tasks := length (tasks m)\<rparr>
            in if total_tasks m1 = 0 then m1
               else submit_pending [0..<length (tasks m1)] (new_executor m1)))"

text \<open>
  \<open>executor.shutdown(wait=False, cancel_futures=True)\<close>: the work queue is drained in
  order and each future taken from it is cancelled, which runs its done callback. Futures
  already executing are left alone.
\<close>

fun cancel_futures :: "nat list \<Rightarrow> manager \<Rightarrow> manager" where
  "cancel_futures [] m = m"
| "cancel_futures (fid # fids) m =
     cancel_futures fids
       (task_completed fid
          (m\<lparr>all_futures := (all_futures m)[fid := (all_futures m ! fid)\<lparr>fstate := FCancelled\<rparr>]\<rparr>))"

definition queued_in :: "nat \<Rightarrow> manager \<Rightarrow> nat list" where
  "queued_in p m =
     filter (\<lambda>fid. fpool (all_futures m ! fid) = p \<and> fstate (all_futures m ! fid) = FQueued)
       [0..<length (all_futures m)]"

definition shutdown :: "manager \<Rightarrow> manager" where
  "shutdown m =
     (case executor m of
        None \<Rightarrow> m
      | Some p \<Rightarrow> (cancel_futures (queued_in p m) m)\<lparr>executor := None\<rparr>)"

definition pause :: "manager \<Rightarrow> manager" where
  "pause m = shutdown (m\<lparr>paused := True\<rparr>)"

definition resume :: "manager \<Rightarrow> manager" where
  "resume m =
     (if \<not> paused m then m
      else (submit_pending [0..<length (tasks m)] (new_executor m))\<lparr>paused := False\<rparr>)"

definition cancel :: "manager \<Rightarrow> manager" where
  "cancel m =
     (let m1 = shutdown (m\<lparr>running := False\<rparr>) in
      m1\<lparr>tasks := map (\<lambda>t. if status t = Running then t\<lparr>status := Cancelled\<rparr> else t)
                     (tasks m1)\<rparr>)"

definition get_progress :: "manager \<Rightarrow> rat" where
  "get_progress m =
     (if total_tasks m = 0 then 0 else of_nat (completed_tasks m) / of_nat (total_tasks m))"

record stats =
  s_total_tasks :: nat
  s_completed_tasks :: nat
  s_failed_tasks :: nat
  s_total_images :: nat
  s_total_original_size :: nat
  s_total_compressed_size :: nat
  s_compression_ratio :: rat

definition get_stats :: "manager \<Rightarrow> stats" where
  "get_stats m =
     (let completed = filter (\<lambda>t. status t = Completed) (tasks m);
          failed = filter (\<lambda>t. status t = Failed) (tasks m);
          total_images = sum_list (map image_count completed);
          total_original_size = sum_list (map original_size completed);
          total_compressed_size = sum_list (map compressed_size completed)
      in \<lparr> s_total_tasks = total_tasks m,
           s_completed_tasks = completed_tasks m,
           s_failed_tasks = length failed,
           s_total_images = total_images,
           s_total_original_size = total_original_size,
           s_total_compressed_size = total_compressed_size,
           s_compression_ratio =
             (if total_original_size \<noteq> 0
              then of_nat total_compressed_size / of_nat total_original_size else 0) \<rparr>)"

subsection \<open>Workers\<close>

text \<open>
  A worker thread of a pool takes the oldest queued future of that pool, while fewer than
  \<open>max_workers\<close> of the pool's futures are executing, and runs \<open>compress_directory\<close> on its
  task; when the function returns or raises, the future finishes and its done callback
  runs. The two halves are separate steps, each taken at once; \<open>None\<close> means the step
  cannot happen in that state.
\<close>

definition executing_in :: "nat \<Rightarrow> manager \<Rightarrow> nat list" where
  "executing_in p m =
     filter (\<lambda>fid. fpool (all_futures m ! fid) = p \<and> fstate (all_futures m ! fid) = FExecuting)
       [0..<length (all_futures m)]"

definition worker_begin :: "nat \<Rightarrow> rat \<Rightarrow> manager \<Rightarrow> manager option" where
  "worker_begin fid now m =
     (if fid < length (all_futures m)
         \<and> fstate (all_futures m ! fid) = FQueued
         \<and> queued_in (fpool (all_futures m ! fid)) m \<noteq> []
         \<and> hd (queued_in (fpool (all_futures m ! fid)) m) = fid
         \<and> length (executing_in (fpool (all_futures m ! fid)) m) < max_workers m
      then (let i = ftask (all_futures m ! fid) in
            Some (m\<lparr>all_futures := (all_futures m)[fid := (all_futures m ! fid)\<lparr>fstate := FExecuting\<rparr>],
                    tasks := (tasks m)[i := compress_begin now (tasks m ! i)]\<rparr>))
      else None)"

definition worker_finish :: "nat \<Rightarrow> world \<Rightarrow> manager \<Rightarrow> manager option" where
  "worker_finish fid w m =
     (if fid < length (all_futures m) \<and> fstate (all_futures m ! fid) = FExecuting
      then (let i = ftask (all_futures m ! fid) in
            case compress_rest w (tasks m ! i) of
              Inl e \<Rightarrow>
                Some (task_completed fid
                  (m\<lparr>all_futures := (all_futures m)[fid := (all_futures m ! fid)\<lparr>fstate := FRaised\<rparr>]\<rparr>))
            | Inr (t', zs) \<Rightarrow>
                Some (task_completed fid
                  (m\<lparr>all_futures := (all_futures m)[fid := (all_futures m ! fid)\<lparr>fstate := FFinished\<rparr>],
                     tasks := (tasks m)[i := t']\<rparr>)))
      else None)"

datatype event =
    AddTask string string bool nat bool
  | Start
  | Pause
  | Resume
  | Cancel
  | WorkerBegin nat rat
  | WorkerFinish nat world

fun step :: "event \<Rightarrow> manager \<Rightarrow> manager option" where
  "step (AddTask src tgt keep_ts level rename) m = Some (add_task src tgt keep_ts level rename m)"
| "step Start m = Some (start m)"
| "step Pause m = Some (pause m)"
| "step Resume m = Some (resume m)"
| "step Cancel m = Some (cancel m)"
| "step (WorkerBegin fid now) m = worker_begin fid now m"
| "step (WorkerFinish fid w) m = worker_finish fid w m"

fun run :: "event list \<Rightarrow> manager \<Rightarrow> manager option" where
  "run [] m = Some m"
| "run (e # es) m = (case step e m of None \<Rightarrow> None | Some m' \<Rightarrow> run es m')"

section \<open>The file-system scanner\<close>

definition excluded_dirs :: "string set" where
  "excluded_dirs = {''.git'', ''__pycache__'', ''.svn'', ''node_modules'', ''.vscode''}"

record scanner =
  max_depth :: int
  chapter_cache :: "string \<rightharpoonup> bool"

definition new_scanner :: "int \<Rightarrow> scanner" where
  "new_scanner depth = \<lparr> max_depth = depth, chapter_cache = Map.empty \<rparr>"

text \<open>\<open>os.scandir\<close> on what the path holds.\<close>

fun scandir :: "string \<Rightarrow> node \<Rightarrow> error + (string \<times> node) list" where
  "scandir path (Dir es) = Inr es"
| "scandir path Locked = Inl (PermissionError path)"
| "scandir path Broken = Inl (FileNotFoundError path)"
| "scandir path (File c) = Inl (OSError path)"

text \<open>
  The loop of \<open>is_chapter_directory\<close> on the state \<open>(has_images, has_subdirs)\<close>. The
  \<open>break\<close> sits in the sub-directory branch and is taken once an image has been seen.
\<close>

fun chapter_loop :: "(string \<times> node) list \<Rightarrow> bool \<times> bool \<Rightarrow> bool \<times> bool" where
  "chapter_loop [] st = st"
| "chapter_loop (item # items) st =
     (if is_file (snd item) \<and> is_image_file (fst item)
      then chapter_loop items (True, snd st)
      else if is_dir (snd item) \<and> fst item \<notin> excluded_dirs
      then (if fst st then (fst st, True) else chapter_loop items (fst st, True))
      else chapter_loop items st)"

text \<open>
  \<open>is_chapter_directory\<close>, given the node the path holds. Only \<open>PermissionError\<close> and
  \<open>FileNotFoundError\<close> are caught; any other error of the listing leaves the function.
\<close>

definition is_chapter_directory :: "scanner \<Rightarrow> string \<Rightarrow> node \<Rightarrow> error + bool \<times> scanner" where
  "is_chapter_directory sc dir_path n =
     (case chapter_cache sc dir_path of
        Some r \<Rightarrow> Inr (r, sc)
      | None \<Rightarrow>
          (case scandir dir_path n of
             Inl (PermissionError msg) \<Rightarrow>
               Inr (False, sc\<lparr>chapter_cache := (chapter_cache sc)(dir_path \<mapsto> False)\<rparr>)
           | Inl (FileNotFoundError msg) \<Rightarrow>
               Inr (False, sc\<lparr>chapter_cache := (chapter_cache sc)(dir_path \<mapsto> False)\<rparr>)
           | Inl (OSError msg) \<Rightarrow> Inl (OSError msg)
           | Inr es \<Rightarrow>
               (let (has_images, has_subdirs) = chapter_loop es (False, False);
                    result = (has_images \<and> \<not> has_subdirs);
                    result = (if has_images \<and> has_subdirs then True else result)
                in Inr (result, sc\<lparr>chapter_cache := (chapter_cache sc)(dir_path \<mapsto> result)\<rparr>))))"

text \<open>
  The depth test \<open>root.count(os.sep) - root_path.count(os.sep) >= self.max_depth\<close> and the
  pruning both passes of the scan apply to \<open>dirs\<close>.
\<close>

definition depth_reached :: "int \<Rightarrow> string \<Rightarrow> string \<Rightarrow> bool" where
  "depth_reached depth root_path r =
     (int (count_list r (CHR ''/'')) - int (count_list root_path (CHR ''/'')) \<ge> depth)"

definition scan_keep :: "int \<Rightarrow> string \<Rightarrow> string \<Rightarrow> string \<Rightarrow> bool" where
  "scan_keep depth root_path r name = (name \<notin> excluded_dirs \<and> \<not> depth_reached depth root_path r)"

text \<open>The first pass: \<open>total_dirs += len(dirs)\<close>, before any pruning.\<close>

fun count_pass :: "walk_item list \<Rightarrow> nat \<Rightarrow> nat" where
  "count_pass [] n = n"
| "count_pass ((r, dirs, files) # items) n = count_pass items (n + length dirs)"

record scan_state =
  total_dirs :: nat
  processed_dirs :: nat
  progress_calls :: "(rat \<times> string) list"
  comic_chapters :: "(string \<times> string \<times> string) list"
  scanner_of :: scanner

text \<open>The status text: U+626B U+63CF in UTF-8, a colon, a blank, the path.\<close>

definition scan_message :: "string \<Rightarrow> string" where
  "scan_message dir_path =
     [CHR 0xE6, CHR 0x89, CHR 0xAB, CHR 0xE6, CHR 0x8F, CHR 0x8F] @ '': '' @ dir_path"

text \<open>
  The inner loop of the second pass, over the sub-directories kept under one root.
  \<open>progress_calls\<close> records each call of the progress callback.
\<close>

fun classify_dirs ::
  "bool \<Rightarrow> string \<Rightarrow> (string \<times> node) list \<Rightarrow> scan_state \<Rightarrow> scan_state \<times> error option" where
  "classify_dirs has_callback r [] st = (st, None)"
| "classify_dirs has_callback r (d # ds) st =
     (let dir_path = path_join r (fst d);
          st1 = st\<lparr>processed_dirs := processed_dirs st + 1\<rparr>;
          st2 = (if has_callback \<and> total_dirs st1 > 0
                 then st1\<lparr>progress_calls := progress_calls st1 @
                        [(of_nat (processed_dirs st1) / of_nat (total_dirs st1),
                          scan_message dir_path)]\<rparr>
                 else st1)
      in case is_chapter_directory (scanner_of st2) dir_path (snd d) of
           Inl e \<Rightarrow> (st2, Some e)
         | Inr (chapter, sc) \<Rightarrow>
             classify_dirs has_callback r ds
               (if chapter
                then st2\<lparr>scanner_of := sc,
                        comic_chapters := comic_chapters st2 @
                          [(dirname dir_path, dir_path, fst d)]\<rparr>
                else st2\<lparr>scanner_of := sc\<rparr>))"

fun classify_pass ::
  "bool \<Rightarrow> int \<Rightarrow> string \<Rightarrow> walk_item list \<Rightarrow> scan_state \<Rightarrow> scan_state \<times> error option" where
  "classify_pass has_callback depth root_path [] st = (st, None)"
| "classify_pass has_callback depth root_path ((r, dirs, files) # items) st =
     (if depth_reached depth root_path r
      then classify_pass has_callback depth root_path items st
      else (case classify_dirs has_callback r
                   (filter (\<lambda>d. fst d \<notin> excluded_dirs) dirs) st of
              (st', Some e) \<Rightarrow> (st', Some e)
            | (st', None) \<Rightarrow> classify_pass has_callback depth root_path items st'))"

text \<open>
  \<open>scan_for_comic_directories\<close> over the tree \<open>n\<close> found at \<open>root_path\<close>. Both passes walk
  the same snapshot with the same pruning. The list returned by the source is
  \<open>comic_chapters\<close> of the final state.
\<close>

definition scan_for_comic_directories ::
  "scanner \<Rightarrow> string \<Rightarrow> node \<Rightarrow> bool \<Rightarrow> scan_state \<times> error option" where
  "scan_for_comic_directories sc root_path n has_callback =
     (let items = walk (scan_keep (max_depth sc) root_path) root_path n;
          counted = count_pass items 0
      in classify_pass has_callback (max_depth sc) root_path items
           \<lparr> total_dirs = counted, processed_dirs = 0, progress_calls = [],
             comic_chapters = [], scanner_of = sc \<rparr>)"

section \<open>Notions used in the properties\<close>

subsection \<open>The image files of a tree\<close>

text \<open>
  The image files of a directory in the words of the specification: the bytes of every
  regular file with an image extension, in the directory or anywhere below it.
\<close>

fun content :: "node \<Rightarrow> string" where
  "content (File c) = c"
| "content n = []"

fun images_in :: "node \<Rightarrow> string list"
  and images_among :: "(string \<times> node) list \<Rightarrow> string list" where
  "images_in (Dir es) = images_among es"
| "images_in (File c) = []"
| "images_in Broken = []"
| "images_in Locked = []"
| "images_among [] = []"
| "images_among ((name, File c) # es) =
     (if is_image_file name then [c] else []) @ images_among es"
| "images_among ((name, n) # es) = images_in n @ images_among es"

text \<open>The file entries a walk yields, those with an image name, and the bytes of the latter.\<close>

definition item_files :: "walk_item list \<Rightarrow> (string \<times> node) list" where
  "item_files items = concat (map (\<lambda>item. snd (snd item)) items)"

definition image_named :: "(string \<times> node) list \<Rightarrow> (string \<times> node) list" where
  "image_named fs = filter (\<lambda>f. is_image_file (fst f)) fs"

definition image_contents :: "(string \<times> node) list \<Rightarrow> string list" where
  "image_contents fs =
     map (\<lambda>f. content (snd f)) (filter (\<lambda>f. is_image_file (fst f) \<and> is_file (snd f)) fs)"

subsection \<open>The directories a scan classifies\<close>

text \<open>
  The directories the second pass of the scan classifies, in order, as paths; and the
  fractions \<open>(done + 1) / n, ..., (done + k) / n\<close>.
\<close>

fun classified_dirs :: "int \<Rightarrow> string \<Rightarrow> walk_item list \<Rightarrow> string list" where
  "classified_dirs depth root_path [] = []"
| "classified_dirs depth root_path ((r, dirs, files) # items) =
     (if depth_reached depth root_path r then []
      else map (\<lambda>d. path_join r (fst d)) (filter (\<lambda>d. fst d \<notin> excluded_dirs) dirs))
     @ classified_dirs depth root_path items"

definition fractions :: "nat \<Rightarrow> nat \<Rightarrow> nat \<Rightarrow> rat list" where
  "fractions done k n = map (\<lambda>i. of_nat i / of_nat n) [Suc done ..< Suc (done + k)]"

subsection \<open>Pending tasks, the life cycle and the protocol\<close>







text \<open>
  The protocol of the pool states: \<open>resume\<close> is called on a pool that has been started and
  not cancelled. \<open>run_ok\<close> says that a run keeps to it and that each of its steps can happen.
\<close>

fun protocol_ok :: "event \<Rightarrow> manager \<Rightarrow> bool" where
  "protocol_ok Resume m = running m"
| "protocol_ok e m = True"

fun run_ok :: "event list \<Rightarrow> manager \<Rightarrow> bool" where
  "run_ok [] m = True"
| "run_ok (e # es) m =
     (protocol_ok e m \<and> (case step e m of None \<Rightarrow> False | Some m' \<Rightarrow> run_ok es m'))"

section \<open>Sample inputs\<close>

text \<open>
  A chapter directory with one image, and a sub-directory holding a second image of the
  same name beside a text file; a world in which every call succeeds; a pool with one
  worker and an update callback.
\<close>

definition sample_tree :: node where
  "sample_tree =
     Dir [(''a.jpg'', File ''abc''),
          (''pages'', Dir [(''a.jpg'', File ''de''), (''notes.txt'', File ''x'')])]"

definition sample_world :: world where
  "sample_world =
     \<lparr> clock_start = 1, clock_end = 2, tree_at = (\<lambda>p. sample_tree),
       getmtime_of = (\<lambda>p. Inr 5), zip_open_fault = (\<lambda>p. None),
       zip_write_fault = (\<lambda>p. None), zip_close_fault = (\<lambda>p. None),
       path_exists = (\<lambda>p. False), remove_fault = (\<lambda>p. None),
       rename_fault = (\<lambda>p q. None), utime_fault = (\<lambda>p t. None),
       md5_of = (\<lambda>p. Inr ''00''), getsize_of = (\<lambda>p. Inr 4),
       rmtree_fault = (\<lambda>p. None) \<rparr>"

definition pool0 :: manager where
  "pool0 = init_manager (Some 1) 4 True"

definition add1 :: event where
  "add1 = AddTask ''Comics/A/1'' ''Comics/A/1.zip'' True 8 False"

definition add2 :: event where
  "add2 = AddTask ''Comics/A/2'' ''Comics/A/2.zip'' True 8 False"

definition add3 :: event where
  "add3 = AddTask ''Comics/A/3'' ''Comics/A/3.zip'' True 8 False"

text \<open>Three tasks, the first finished, the second executing, the third still queued.\<close>

definition mid_run :: manager where
  "mid_run =
     the (run [add1, add2, add3, Start, WorkerBegin 0 1, WorkerFinish 0 sample_world,
               WorkerBegin 1 2] pool0)"

text \<open>A pool cancelled after its only task finished, with a second task added since.\<close>

definition restart_state :: manager where
  "restart_state =
     the (run [add1, Start, WorkerBegin 0 1, WorkerFinish 0 sample_world, Cancel, add2] pool0)"

text \<open>A pool whose only task has finished, and that task as it then stands.\<close>

definition one_done :: manager where
  "one_done = the (run [add1, Start, WorkerBegin 0 1, WorkerFinish 0 sample_world] pool0)"

definition done_task :: task where
  "done_task =
     \<lparr> source_path = ''Comics/A/1'', target_path = ''Comics/A/1.zip'',
       preserve_timestamp = True, compression_level = 8, rename_pattern = False,
       status = Completed, error = None, start_time = Some 1, end_time = Some 2,
       image_count = 2, original_size = 5, compressed_size = 4, md5 = Some ''00'' \<rparr>"



text \<open>A new task, and a world in which the source directory cannot be removed.\<close>

definition first_task :: task where
  "first_task = new_task ''Comics/A/1'' ''Comics/A/1.zip'' True 8 False"

definition no_delete_world :: world where
  "no_delete_world = sample_world\<lparr>rmtree_fault := (\<lambda>p. Some (PermissionError p))\<rparr>"

text \<open>A library with one series of two chapters and a version-control directory.\<close>

definition comics_tree :: node where
  "comics_tree =
     Dir [(''A'', Dir [(''1'', Dir [(''a.jpg'', File ''abc''), (''b.png'', File ''de'')]),
                      (''2'', Dir [(''c.jpg'', File ''f'')]),
                      (''.git'', Dir [])]),
          (''notes.txt'', File ''x'')]"


definition paused_run :: "event list" where
  "paused_run =
     [add1, add2, Start, WorkerBegin 0 1, Pause, WorkerFinish 0 sample_world,
      Resume, WorkerBegin 2 3, WorkerFinish 2 sample_world]"

definition queued_state :: manager where
  "queued_state = the (run [add1, add2, Start, WorkerBegin 0 1] pool0)"

section \<open>Properties of the scheduler operations\<close>

lemma tasks_task_completed: "tasks (task_completed fid m) = tasks m"
  by (simp add: task_completed_def Let_def)

lemma tasks_cancel_futures: "tasks (cancel_futures fids m) = tasks m"
  by (induction fids arbitrary: m) (simp_all add: tasks_task_completed)

lemma tasks_shutdown: "tasks (shutdown m) = tasks m"
  by (simp add: shutdown_def tasks_cancel_futures split: option.splits)

lemma running_task_completed: "running (task_completed fid m) = running m"
  by (simp add: task_completed_def Let_def)

lemma running_cancel_futures: "running (cancel_futures fids m) = running m"
  by (induction fids arbitrary: m) (simp_all add: running_task_completed)

lemma running_shutdown: "running (shutdown m) = running m"
  by (simp add: shutdown_def running_cancel_futures split: option.splits)

lemma mid_run_reachable:
  "run [add1, add2, add3, Start, WorkerBegin 0 1, WorkerFinish 0 sample_world,
        WorkerBegin 1 2] pool0 = Some mid_run"
  unfolding mid_run_def by code_simp

lemma restart_state_reachable:
  "run [add1, Start, WorkerBegin 0 1, WorkerFinish 0 sample_world, Cancel, add2] pool0
     = Some restart_state"
  unfolding restart_state_def by code_simp

text \<open>
  C4. \<open>cancel\<close> clears the running flag and, when it returns, has changed the status of
  exactly the tasks that were running, to cancelled: every other task, pending ones
  included, keeps its status, and no other field of any task changes.
\<close>

theorem cancel_marks_running_only:
  "running (cancel m) = False \<and>
   length (tasks (cancel m)) = length (tasks m) \<and>
   (\<forall>i < length (tasks m).
      status (tasks (cancel m) ! i) =
        (if status (tasks m ! i) = Running then Cancelled else status (tasks m ! i)) \<and>
      (tasks (cancel m) ! i)\<lparr>status := status (tasks m ! i)\<rparr> = tasks m ! i)"
  by (simp add: cancel_def Let_def tasks_shutdown running_shutdown)

theorem cancel_marks_running_only_witness:
  "map status (tasks mid_run) = [Completed, Running, Pending] \<and>
   running mid_run \<and>
   running (cancel mid_run) = False \<and>
   status (tasks (cancel mid_run) ! 0) = Completed \<and>
   status (tasks (cancel mid_run) ! 1) = Cancelled \<and>
   status (tasks (cancel mid_run) ! 2) = Pending"
proof -
  have st: "map status (tasks mid_run) = [Completed, Running, Pending]"
    unfolding mid_run_def by code_simp
  have rn: "running mid_run"
    unfolding mid_run_def by code_simp
  have len: "length (tasks mid_run) = 3"
    using arg_cong [OF st, of length] by simp
  have s0: "status (tasks mid_run ! 0) = Completed"
    and s1: "status (tasks mid_run ! 1) = Running"
    and s2: "status (tasks mid_run ! 2) = Pending"
    using arg_cong [OF st, of "\<lambda>xs. xs ! 0"] arg_cong [OF st, of "\<lambda>xs. xs ! 1"]
      arg_cong [OF st, of "\<lambda>xs. xs ! 2"] len
    by simp_all
  show ?thesis
    using cancel_marks_running_only [of mid_run] st rn len s0 s1 s2 by simp
qed

subsection \<open>The submission loop\<close>







section \<open>Properties of the task record\<close>

lemma tasks_one_done: "tasks one_done = [done_task]"
  unfolding one_done_def done_task_def by code_simp

text \<open>
  C9. The record of \<open>to_dict\<close> gives the ratio as original size over compressed size, and 0
  when the compressed size is 0. \<open>get_stats\<close> gives compressed over original, summed over
  the completed tasks, and 0 when the original total is 0. For a pool of one completed
  task with both sizes positive the two are reciprocal. Division is exact here, on
  rationals, where the source divides floats.
\<close>

theorem compression_ratio_orientation:
  "d_compression_ratio (to_dict t) =
     (if compressed_size t = 0 then 0
      else of_nat (original_size t) / of_nat (compressed_size t)) \<and>
   s_compression_ratio (get_stats m) =
     (if s_total_original_size (get_stats m) = 0 then 0
      else of_nat (s_total_compressed_size (get_stats m)) /
           of_nat (s_total_original_size (get_stats m))) \<and>
   s_total_original_size (get_stats m) =
     sum_list (map original_size (filter (\<lambda>t. status t = Completed) (tasks m))) \<and>
   s_total_compressed_size (get_stats m) =
     sum_list (map compressed_size (filter (\<lambda>t. status t = Completed) (tasks m))) \<and>
   (tasks m = [t] \<and> status t = Completed \<and> original_size t \<noteq> 0 \<and> compressed_size t \<noteq> 0
      \<longrightarrow> d_compression_ratio (to_dict t) * s_compression_ratio (get_stats m) = 1)"
  by (simp add: to_dict_def get_stats_def Let_def)

theorem compression_ratio_orientation_witness:
  "d_compression_ratio (to_dict done_task) = 5 / 4 \<and>
   s_compression_ratio (get_stats one_done) = 4 / 5 \<and>
   d_compression_ratio (to_dict done_task) * s_compression_ratio (get_stats one_done) = 1"
proof -
  have s: "status done_task = Completed"
    and o: "original_size done_task = 5"
    and c: "compressed_size done_task = 4"
    by (simp_all add: done_task_def)
  show ?thesis
    using compression_ratio_orientation [of done_task one_done] tasks_one_done s o c
    by simp
qed

section \<open>Properties of the classifier\<close>





section \<open>Properties of the archiver\<close>

lemma finalize_frame:
  assumes "finalize w t m tmp = (t', r)"
  shows "source_path t' = source_path t \<and> preserve_timestamp t' = preserve_timestamp t \<and>
         compression_level t' = compression_level t \<and> rename_pattern t' = rename_pattern t \<and>
         start_time t' = start_time t \<and> end_time t' = end_time t \<and> error t' = error t \<and>
         image_count t' = image_count t \<and> original_size t' = original_size t \<and>
         (r = None \<longrightarrow> status t' = Completed)"
  using assms unfolding finalize_def Let_def
  by (auto split: option.splits sum.splits if_splits)

lemma compress_try_frame:
  assumes "compress_try w t = (t', zs, r)"
  shows "source_path t' = source_path t \<and> preserve_timestamp t' = preserve_timestamp t \<and>
         compression_level t' = compression_level t \<and> rename_pattern t' = rename_pattern t \<and>
         start_time t' = start_time t \<and> end_time t' = end_time t \<and> error t' = error t \<and>
         (r = None \<longrightarrow> status t' = Completed)"
proof -
  obtain n sz where c: "count_images_in_directory (source_path t) (tree_at w (source_path t)) = (n, sz)"
    by (cases "count_images_in_directory (source_path t) (tree_at w (source_path t))")
  show ?thesis
  proof (cases "getmtime_of w (source_path t)")
    case (Inl e)
    with assms c show ?thesis by (auto simp: compress_try_def)
  next
    case (Inr mt)
    obtain zs1 r1 where wa: "write_archive w (t\<lparr>image_count := n, original_size := sz\<rparr>)
        (target_path t @ ''.temp'') = (zs1, r1)"
      by (cases "write_archive w (t\<lparr>image_count := n, original_size := sz\<rparr>) (target_path t @ ''.temp'')")
    show ?thesis
    proof (cases r1)
      case (Some e)
      with assms c Inr wa show ?thesis by (auto simp: compress_try_def)
    next
      case None
      obtain t2 r2 where f: "finalize w (t\<lparr>image_count := n, original_size := sz\<rparr>) mt
          (target_path t @ ''.temp'') = (t2, r2)"
        by (cases "finalize w (t\<lparr>image_count := n, original_size := sz\<rparr>) mt (target_path t @ ''.temp'')")
      from assms c Inr wa None f have "t' = t2" "r = r2"
        by (auto simp: compress_try_def)
      with finalize_frame [OF f] show ?thesis by simp
    qed
  qed
qed

text \<open>
  C7. \<open>compress_directory\<close> always returns the task and never an exception. The returned
  task keeps its source path and configuration and carries both clock readings. When a
  step of the \<open>try\<close> block raised, its status is failed and its error is the exception
  raised; otherwise its status is completed.
\<close>

theorem compress_directory_contains_errors:
  "\<exists>t' zs. compress_directory w t = Inr (t', zs) \<and>
     source_path t' = source_path t \<and> preserve_timestamp t' = preserve_timestamp t \<and>
     compression_level t' = compression_level t \<and> rename_pattern t' = rename_pattern t \<and>
     start_time t' = Some (clock_start w) \<and> end_time t' = Some (clock_end w) \<and>
     (case snd (snd (compress_try w (compress_begin (clock_start w) t))) of
        Some e \<Rightarrow> status t' = Failed \<and> error t' = Some e
      | None \<Rightarrow> status t' = Completed \<and> error t' = error t)"
proof -
  obtain t1 zs r where c: "compress_try w (compress_begin (clock_start w) t) = (t1, zs, r)"
    by (cases "compress_try w (compress_begin (clock_start w) t)") auto
  from compress_try_frame [OF c] show ?thesis
    using c by (cases r) (simp_all add: compress_directory_def compress_rest_def compress_begin_def)
qed

theorem compress_directory_contains_errors_witness:
  "snd (snd (compress_try no_delete_world (compress_begin (clock_start no_delete_world)
       first_task))) = Some (PermissionError ''Comics/A/1'') \<and>
   (\<exists>t' zs. compress_directory no_delete_world first_task
        = Inr (t', zs) \<and> status t' = Failed \<and> error t' = Some (PermissionError ''Comics/A/1'') \<and>
          end_time t' = Some 2)"
proof -
  have r: "snd (snd (compress_try no_delete_world (compress_begin (clock_start no_delete_world)
       first_task))) = Some (PermissionError ''Comics/A/1'')"
    unfolding no_delete_world_def first_task_def by code_simp
  have e: "clock_end no_delete_world = 2"
    by (simp add: no_delete_world_def sample_world_def)
  show ?thesis
    using compress_directory_contains_errors
      [of no_delete_world first_task] r e
    by auto
qed

subsection \<open>The archive against the source tree\<close>

lemma item_files_simps [simp]:
  "item_files [] = []"
  "item_files ((r, dirs, files) # items) = files @ item_files items"
  "item_files (xs @ ys) = item_files xs @ item_files ys"
  by (simp_all add: item_files_def)

lemma image_named_simps [simp]:
  "image_named [] = []"
  "image_named (f # fs) = (if is_image_file (fst f) then f # image_named fs else image_named fs)"
  "image_named (xs @ ys) = image_named xs @ image_named ys"
  by (simp_all add: image_named_def)

lemma zip_write_Inr:
  "zip_write w path arcname n = Inr z \<Longrightarrow> is_file n \<and> z = (arcname, content n)"
  by (cases n) (auto split: option.splits)

lemma zip_files_success:
  "zip_files w r fs zs0 = (zs, None) \<Longrightarrow>
     zs = zs0 @ map (\<lambda>f. (fst f, content (snd f))) (image_named fs) \<and>
     (\<forall>f \<in> set (image_named fs). is_file (snd f))"
proof (induction fs arbitrary: zs0)
  case Nil
  then show ?case by simp
next
  case (Cons f fs)
  show ?case
  proof (cases "is_image_file (fst f)")
    case False
    with Cons show ?thesis by simp
  next
    case True
    show ?thesis
    proof (cases "zip_write w (path_join r (fst f)) (fst f) (snd f)")
      case (Inl e)
      with Cons.prems True show ?thesis by simp
    next
      case (Inr z)
      with Cons.prems True have "zip_files w r fs (zs0 @ [z]) = (zs, None)" by simp
      from Cons.IH [OF this] zip_write_Inr [OF Inr] True show ?thesis by simp
    qed
  qed
qed

lemma zip_items_success:
  "zip_items w items zs0 = (zs, None) \<Longrightarrow>
     zs = zs0 @ map (\<lambda>f. (fst f, content (snd f))) (image_named (item_files items)) \<and>
     (\<forall>f \<in> set (image_named (item_files items)). is_file (snd f))"
proof (induction items arbitrary: zs0)
  case Nil
  then show ?case by simp
next
  case (Cons item items)
  obtain r dirs files where item: "item = (r, dirs, files)" by (cases item)
  obtain zs1 e1 where f: "zip_files w r files zs0 = (zs1, e1)"
    by (cases "zip_files w r files zs0")
  show ?case
  proof (cases e1)
    case (Some e)
    with Cons.prems item f show ?thesis by simp
  next
    case None
    with Cons.prems item f have "zip_items w items zs1 = (zs, None)" by simp
    from Cons.IH [OF this] zip_files_success [OF f [unfolded None]] item
    show ?thesis by auto
  qed
qed

lemma count_files_all_files:
  "\<forall>f \<in> set (image_named fs). is_file (snd f) \<Longrightarrow>
   count_files r fs acc =
     ((fst acc + length (image_named fs),
       snd acc + sum_list (map (\<lambda>f. length (content (snd f))) (image_named fs))), None)"
proof (induction fs arbitrary: acc)
  case Nil
  then show ?case by simp
next
  case (Cons f fs)
  show ?case
  proof (cases "is_image_file (fst f)")
    case False
    with Cons show ?thesis by simp
  next
    case True
    with Cons.prems have "is_file (snd f)" by simp
    then obtain c where c: "snd f = File c" by (cases "snd f") auto
    from Cons.prems True have "\<forall>f \<in> set (image_named fs). is_file (snd f)" by simp
    from Cons.IH [OF this] True c show ?thesis by simp
  qed
qed

lemma count_items_all_files:
  "\<forall>f \<in> set (image_named (item_files items)). is_file (snd f) \<Longrightarrow>
   count_items items acc =
     ((fst acc + length (image_named (item_files items)),
       snd acc + sum_list (map (\<lambda>f. length (content (snd f))) (image_named (item_files items)))),
      None)"
proof (induction items arbitrary: acc)
  case Nil
  then show ?case by simp
next
  case (Cons item items)
  obtain r dirs files where item: "item = (r, dirs, files)" by (cases item)
  from Cons.prems item have a: "\<forall>f \<in> set (image_named files). is_file (snd f)"
    and b: "\<forall>f \<in> set (image_named (item_files items)). is_file (snd f)"
    by auto
  show ?case
    using count_files_all_files [OF a] Cons.IH [OF b] item by simp
qed

lemma image_contents_simps [simp]:
  "image_contents [] = []"
  "image_contents (xs @ ys) = image_contents xs @ image_contents ys"
  by (simp_all add: image_contents_def)

lemma image_contents_Cons:
  "image_contents (f # fs) =
     (if is_image_file (fst f) \<and> is_file (snd f) then [content (snd f)] else []) @ image_contents fs"
  by (simp add: image_contents_def)

lemma walk_images:
  "keep = keep_all \<longrightarrow>
     mset (image_contents (item_files (walk keep r n))) = mset (images_in n)"
  "keep = keep_all \<longrightarrow>
     mset (image_contents (filter (\<lambda>e. \<not> is_dir (snd e)) es)) +
     mset (image_contents (item_files (walk_children keep r es))) = mset (images_among es)"
proof (induction keep r n and keep r es rule: walk_walk_children.induct)
  case (6 keep r e es)
  obtain name nd where e: "e = (name, nd)" by (cases e)
  show ?case
  proof (intro impI)
    assume k: "keep = keep_all"
    have rest: "mset (images_among es) =
        mset (image_contents (filter (\<lambda>e. \<not> is_dir (snd e)) es)) +
        mset (image_contents (item_files (walk_children keep_all r es)))"
      using 6(2) k by simp
    show "mset (image_contents (filter (\<lambda>e. \<not> is_dir (snd e)) (e # es))) +
          mset (image_contents (item_files (walk_children keep r (e # es)))) =
          mset (images_among (e # es))"
    proof (cases nd)
      case (Dir ds)
      have "keep r name" using k by (simp add: keep_all_def)
      then have "mset (images_in nd) =
          mset (image_contents (item_files (walk keep_all (path_join r name) nd)))"
        using 6(1) k e Dir by simp
      then show ?thesis
        using e Dir k by (simp add: rest ac_simps keep_all_def)
    qed (use e k in \<open>simp_all add: rest image_contents_Cons\<close>)
  qed
qed (simp_all add: image_contents_Cons)

lemma write_archive_success:
  assumes "write_archive w t tmp = (zs, None)"
  shows "zip_items w (walk keep_all (source_path t) (tree_at w (source_path t))) [] = (zs, None)"
  using assms unfolding write_archive_def
  by (auto split: option.splits prod.splits)

lemma image_named_all_files:
  "\<forall>f \<in> set (image_named fs). is_file (snd f) \<Longrightarrow>
   map (\<lambda>f. content (snd f)) (image_named fs) = image_contents fs"
  by (induction fs) (auto simp: image_contents_Cons)

text \<open>
  C6. When the task of a directory ends completed, the archive it wrote holds one entry
  per image file of the directory and its sub-directories, with the same bytes: as many
  entries as there are image files, of the same total size, which are also the count and
  size recorded on the task. Two images of the same name give two entries.
\<close>

theorem archive_round_trip:
  assumes "compress_directory w t = Inr (t', zs)"
    and "status t' = Completed"
  shows "mset (map snd zs) = mset (images_in (tree_at w (source_path t))) \<and>
         length zs = length (images_in (tree_at w (source_path t))) \<and>
         sum_list (map (\<lambda>z. length (snd z)) zs) =
           sum_list (map length (images_in (tree_at w (source_path t)))) \<and>
         image_count t' = length zs \<and>
         original_size t' = sum_list (map (\<lambda>z. length (snd z)) zs)"
proof -
  let ?t0 = "compress_begin (clock_start w) t"
  let ?src = "source_path t"
  let ?items = "walk keep_all ?src (tree_at w ?src)"
  have src: "source_path ?t0 = ?src" by (simp add: compress_begin_def)
  obtain t1 zs1 r where c: "compress_try w ?t0 = (t1, zs1, r)"
    by (cases "compress_try w ?t0") auto
  have r: "r = None" and zs1: "zs1 = zs" and t1: "t' = t1\<lparr>end_time := Some (clock_end w)\<rparr>"
    using assms c by (cases r; auto simp: compress_directory_def compress_rest_def)+
  obtain n sz where cnt: "count_images_in_directory ?src (tree_at w ?src) = (n, sz)"
    by (cases "count_images_in_directory ?src (tree_at w ?src)")
  let ?t1 = "?t0\<lparr>image_count := n, original_size := sz\<rparr>"
  obtain mt where mt: "getmtime_of w ?src = Inr mt"
    using c r cnt src by (cases "getmtime_of w ?src") (auto simp: compress_try_def)
  obtain zs2 r2 where wa: "write_archive w ?t1 (target_path ?t1 @ ''.temp'') = (zs2, r2)"
    by (cases "write_archive w ?t1 (target_path ?t1 @ ''.temp'')")
  have r2: "r2 = None" and zs2: "zs2 = zs"
    using c r zs1 cnt src mt wa by (cases r2; auto simp: compress_try_def split: prod.splits)+
  obtain t2 r3 where f: "finalize w ?t1 mt (target_path ?t1 @ ''.temp'') = (t2, r3)"
    by (cases "finalize w ?t1 mt (target_path ?t1 @ ''.temp'')")
  have t2: "t1 = t2"
    using c cnt src mt wa r2 f by (auto simp: compress_try_def)
  have zi: "zip_items w ?items [] = (zs, None)"
    using write_archive_success [OF wa [unfolded r2]] zs2 src by simp
  from zip_items_success [OF zi]
  have zs: "zs = map (\<lambda>f. (fst f, content (snd f))) (image_named (item_files ?items))"
    and files: "\<forall>f \<in> set (image_named (item_files ?items)). is_file (snd f)"
    by simp_all
  have snd_zs: "map snd zs = image_contents (item_files ?items)"
    using zs image_named_all_files [OF files] by (simp add: comp_def)
  have m: "mset (map snd zs) = mset (images_in (tree_at w ?src))"
    using snd_zs walk_images(1) [of keep_all ?src "tree_at w ?src"] by simp
  have len: "length zs = length (images_in (tree_at w ?src))"
    using arg_cong [OF m, of size] by simp
  have "sum_list (map length (map snd zs)) = sum_list (map length (images_in (tree_at w ?src)))"
    using arg_cong [OF m, of "\<lambda>M. sum_mset (image_mset length M)"]
    by (metis mset_map sum_mset_sum_list)
  then have sum: "sum_list (map (\<lambda>z. length (snd z)) zs) =
      sum_list (map length (images_in (tree_at w ?src)))"
    by (simp add: comp_def)
  have "count_images_in_directory ?src (tree_at w ?src) =
      (length (image_named (item_files ?items)),
       sum_list (map (\<lambda>f. length (content (snd f))) (image_named (item_files ?items))))"
    using count_items_all_files [OF files, of "(0, 0)"]
    by (simp add: count_images_in_directory_def)
  with cnt zs have n: "n = length zs" and sz: "sz = sum_list (map (\<lambda>z. length (snd z)) zs)"
    by (simp_all add: comp_def)
  have "image_count t' = n" "original_size t' = sz"
    using finalize_frame [OF f] t1 t2 by simp_all
  with m len sum n sz show ?thesis by simp
qed

theorem archive_round_trip_witness:
  "compress_directory sample_world first_task =
     Inr (done_task, [(''a.jpg'', ''abc''), (''a.jpg'', ''de'')]) \<and>
   status done_task = Completed \<and>
   length (images_in (tree_at sample_world (source_path first_task))) = 2 \<and>
   sum_list (map length (images_in (tree_at sample_world (source_path first_task)))) = 5 \<and>
   image_count done_task = 2 \<and> original_size done_task = 5"
proof -
  have c: "compress_directory sample_world first_task =
      Inr (done_task, [(''a.jpg'', ''abc''), (''a.jpg'', ''de'')])"
    unfolding first_task_def done_task_def by code_simp
  have s: "status done_task = Completed"
    by (simp add: done_task_def)
  show ?thesis
    using archive_round_trip [OF c s] c s by simp
qed

section \<open>Properties of the scan\<close>

lemma walk_dirs_are_dirs:
  "\<forall>item \<in> set (walk keep r n). \<forall>d \<in> set (fst (snd item)). is_dir (snd d)"
  "\<forall>item \<in> set (walk_children keep r es). \<forall>d \<in> set (fst (snd item)). is_dir (snd d)"
  by (induction keep r n and keep r es rule: walk_walk_children.induct) auto

lemma is_chapter_directory_dir:
  assumes "is_dir n"
  shows "\<exists>b sc'. is_chapter_directory sc p n = Inr (b, sc')"
  using assms
  by (cases n) (auto simp: is_chapter_directory_def Let_def split: option.splits prod.splits)

lemma fractions_Suc:
  "fractions done (Suc k) n = (of_nat (Suc done) / of_nat n) # fractions (Suc done) k n"
  by (simp add: fractions_def upt_rec)

lemma classify_dirs_step:
  assumes "is_dir (snd d)"
  shows "\<exists>st3. classify_dirs cb r (d # ds) st = classify_dirs cb r ds st3 \<and>
           total_dirs st3 = total_dirs st \<and>
           processed_dirs st3 = Suc (processed_dirs st) \<and>
           progress_calls st3 = progress_calls st @
             (if cb \<and> total_dirs st > 0
              then [(of_nat (Suc (processed_dirs st)) / of_nat (total_dirs st),
                     scan_message (path_join r (fst d)))]
              else [])"
proof -
  obtain b sc' where ic:
    "is_chapter_directory (scanner_of st) (path_join r (fst d)) (snd d) = Inr (b, sc')"
    using is_chapter_directory_dir [OF assms] by blast
  show ?thesis
  proof (cases "cb \<and> total_dirs st > 0")
    case True
    let ?st2 = "st\<lparr>processed_dirs := Suc (processed_dirs st),
                   progress_calls := progress_calls st @
                     [(of_nat (Suc (processed_dirs st)) / of_nat (total_dirs st),
                       scan_message (path_join r (fst d)))]\<rparr>"
    let ?st3 = "if b then ?st2\<lparr>scanner_of := sc',
                        comic_chapters := comic_chapters st @
                          [(dirname (path_join r (fst d)), path_join r (fst d), fst d)]\<rparr>
                else ?st2\<lparr>scanner_of := sc'\<rparr>"
    have "classify_dirs cb r (d # ds) st = classify_dirs cb r ds ?st3"
      using True ic by (simp add: Let_def)
    moreover have "total_dirs ?st3 = total_dirs st" "processed_dirs ?st3 = Suc (processed_dirs st)"
      "progress_calls ?st3 = progress_calls st @
                     [(of_nat (Suc (processed_dirs st)) / of_nat (total_dirs st),
                       scan_message (path_join r (fst d)))]"
      by simp_all
    ultimately show ?thesis using True by (intro exI [of _ ?st3]) (simp del: classify_dirs.simps)
  next
    case False
    let ?st2 = "st\<lparr>processed_dirs := Suc (processed_dirs st)\<rparr>"
    let ?st3 = "if b then ?st2\<lparr>scanner_of := sc',
                        comic_chapters := comic_chapters st @
                          [(dirname (path_join r (fst d)), path_join r (fst d), fst d)]\<rparr>
                else ?st2\<lparr>scanner_of := sc'\<rparr>"
    have "classify_dirs cb r (d # ds) st = classify_dirs cb r ds ?st3"
      using False ic by (auto simp: Let_def)
    moreover have "total_dirs ?st3 = total_dirs st" "processed_dirs ?st3 = Suc (processed_dirs st)"
      "progress_calls ?st3 = progress_calls st"
      by simp_all
    ultimately show ?thesis using False by (intro exI [of _ ?st3]) (simp del: classify_dirs.simps)
  qed
qed

lemma classify_dirs_calls:
  assumes "\<forall>d \<in> set ds. is_dir (snd d)"
  shows "\<exists>st'. classify_dirs cb r ds st = (st', None) \<and>
           total_dirs st' = total_dirs st \<and>
           processed_dirs st' = processed_dirs st + length ds \<and>
           progress_calls st' = progress_calls st @
             (if cb \<and> total_dirs st > 0
              then zip (fractions (processed_dirs st) (length ds) (total_dirs st))
                       (map (\<lambda>d. scan_message (path_join r (fst d))) ds)
              else [])"
  using assms
proof (induction ds arbitrary: st)
  case Nil
  then show ?case by (simp add: fractions_def)
next
  case (Cons d ds)
  from Cons.prems have d: "is_dir (snd d)" and ds: "\<forall>d \<in> set ds. is_dir (snd d)" by simp_all
  from classify_dirs_step [OF d, of cb r ds st] obtain st3 where
    step: "classify_dirs cb r (d # ds) st = classify_dirs cb r ds st3"
    and t3: "total_dirs st3 = total_dirs st" and p3: "processed_dirs st3 = Suc (processed_dirs st)"
    and c3: "progress_calls st3 = progress_calls st @
       (if cb \<and> total_dirs st > 0
        then [(of_nat (Suc (processed_dirs st)) / of_nat (total_dirs st), scan_message (path_join r (fst d)))]
        else [])"
    by blast
  from Cons.IH [OF ds, of st3] obtain st' where
    r: "classify_dirs cb r ds st3 = (st', None)"
    and t: "total_dirs st' = total_dirs st3"
    and p: "processed_dirs st' = processed_dirs st3 + length ds"
    and c: "progress_calls st' = progress_calls st3 @
             (if cb \<and> total_dirs st3 > 0
              then zip (fractions (processed_dirs st3) (length ds) (total_dirs st3))
                       (map (\<lambda>d. scan_message (path_join r (fst d))) ds)
              else [])"
    by blast
  show ?case
    using step r t p c unfolding t3 p3 c3
    by (simp add: fractions_Suc)
qed

lemma fractions_append:
  "fractions done (j + k) n = fractions done j n @ fractions (done + j) k n"
proof -
  have "[Suc done ..< Suc (done + (j + k))] = [Suc done ..< Suc (done + j)] @ [Suc (done + j) ..< Suc (done + j + k)]"
    by (metis add.assoc add_Suc le_add1 upt_add_eq_append)
  then show ?thesis by (simp add: fractions_def)
qed

lemma length_fractions [simp]: "length (fractions done k n) = k"
  by (simp add: fractions_def)

lemma classify_pass_calls:
  assumes "\<forall>item \<in> set items. \<forall>d \<in> set (fst (snd item)). is_dir (snd d)"
  shows "\<exists>st'. classify_pass cb depth root_path items st = (st', None) \<and>
           total_dirs st' = total_dirs st \<and>
           processed_dirs st' = processed_dirs st + length (classified_dirs depth root_path items) \<and>
           progress_calls st' = progress_calls st @
             (if cb \<and> total_dirs st > 0
              then zip (fractions (processed_dirs st)
                          (length (classified_dirs depth root_path items)) (total_dirs st))
                       (map scan_message (classified_dirs depth root_path items))
              else [])"
  using assms
proof (induction items arbitrary: st)
  case Nil
  then show ?case by (simp add: fractions_def)
next
  case (Cons item items)
  obtain r dirs files where item: "item = (r, dirs, files)" by (cases item)
  from Cons.prems item have dirs: "\<forall>d \<in> set dirs. is_dir (snd d)"
    and rest: "\<forall>item \<in> set items. \<forall>d \<in> set (fst (snd item)). is_dir (snd d)"
    by auto
  show ?case
  proof (cases "depth_reached depth root_path r")
    case True
    with Cons.IH [OF rest, of st] item show ?thesis by auto
  next
    case False
    let ?ds = "filter (\<lambda>d. fst d \<notin> excluded_dirs) dirs"
    from dirs have "\<forall>d \<in> set ?ds. is_dir (snd d)" by simp
    from classify_dirs_calls [OF this, of cb r st] obtain st1 where
      r1: "classify_dirs cb r ?ds st = (st1, None)"
      and t1: "total_dirs st1 = total_dirs st"
      and p1: "processed_dirs st1 = processed_dirs st + length ?ds"
      and c1: "progress_calls st1 = progress_calls st @
             (if cb \<and> total_dirs st > 0
              then zip (fractions (processed_dirs st) (length ?ds) (total_dirs st))
                       (map (\<lambda>d. scan_message (path_join r (fst d))) ?ds)
              else [])"
      by blast
    from Cons.IH [OF rest, of st1] obtain st' where
      r2: "classify_pass cb depth root_path items st1 = (st', None)"
      and t2: "total_dirs st' = total_dirs st1"
      and p2: "processed_dirs st' = processed_dirs st1 + length (classified_dirs depth root_path items)"
      and c2: "progress_calls st' = progress_calls st1 @
             (if cb \<and> total_dirs st1 > 0
              then zip (fractions (processed_dirs st1)
                          (length (classified_dirs depth root_path items)) (total_dirs st1))
                       (map scan_message (classified_dirs depth root_path items))
              else [])"
      by blast
    show ?thesis
      using False item r1 r2 t2 p2 c2 unfolding t1 p1 c1
      by (simp add: fractions_append comp_def)
  qed
qed

lemma count_pass_sum:
  "count_pass items n = n + sum_list (map (\<lambda>item. length (fst (snd item))) items)"
  by (induction items arbitrary: n) auto

lemma classified_le_counted:
  "length (classified_dirs depth root_path items) \<le> sum_list (map (\<lambda>item. length (fst (snd item))) items)"
proof (induction items)
  case Nil
  then show ?case by simp
next
  case (Cons item items)
  obtain r dirs files where item: "item = (r, dirs, files)" by (cases item)
  have "length (filter (\<lambda>d. fst d \<notin> excluded_dirs) dirs) \<le> length dirs" by simp
  with Cons item show ?case by (simp add: add_mono)
qed

lemma fractions_bounds:
  assumes "done + k \<le> n" and "f \<in> set (fractions done k n)"
  shows "0 \<le> f \<and> f \<le> 1"
proof -
  from assms(2) have "f \<in> (\<lambda>i. of_nat i / of_nat n) ` set [Suc done ..< Suc (done + k)]"
    unfolding fractions_def by (simp only: set_map)
  then obtain i where i: "i \<in> set [Suc done ..< Suc (done + k)]" and f: "f = of_nat i / of_nat n"
    by blast
  from i have "Suc done \<le> i" "i < Suc (done + k)"
    by (simp_all only: set_upt atLeastLessThan_iff)
  with assms(1) have "i \<le> n" "0 < n" by simp_all
  then show ?thesis using f by simp
qed

lemma fractions_sorted: "sorted (fractions done k n)"
proof -
  have "sorted_wrt (\<lambda>i j. (of_nat i :: rat) / of_nat n \<le> of_nat j / of_nat n)
          [Suc done ..< Suc (done + k)]"
    by (rule sorted_wrt_mono_rel [OF _ sorted_wrt_upt]) (simp add: divide_right_mono)
  then show ?thesis
    unfolding fractions_def by (simp only: sorted_map)
qed

text \<open>
  C8. A scan of a snapshot never fails. With a callback, the progress callback is called
  once for each directory the second pass classifies, in order, with the status text of
  that directory and the fraction \<open>i / total\<close> for the \<open>i\<close>-th of them, where \<open>total\<close> is the
  count of the first pass; without one it is never called. Every fraction lies between 0
  and 1 and the fractions never decrease. Fractions are exact rationals here.
\<close>

theorem scan_progress_calls:
  "\<exists>st. scan_for_comic_directories sc root_path n cb = (st, None) \<and>
     (let visited = classified_dirs (max_depth sc) root_path
                      (walk (scan_keep (max_depth sc) root_path) root_path n)
      in processed_dirs st = length visited \<and>
         length visited \<le> total_dirs st \<and>
         (cb \<longrightarrow> map fst (progress_calls st) =
                  map (\<lambda>i. of_nat i / of_nat (total_dirs st)) [1 ..< Suc (length visited)] \<and>
                map snd (progress_calls st) = map scan_message visited) \<and>
         (\<not> cb \<longrightarrow> progress_calls st = []) \<and>
         (\<forall>c \<in> set (progress_calls st). 0 \<le> fst c \<and> fst c \<le> 1) \<and>
         sorted (map fst (progress_calls st)))"
proof -
  let ?items = "walk (scan_keep (max_depth sc) root_path) root_path n"
  let ?visited = "classified_dirs (max_depth sc) root_path ?items"
  let ?total = "count_pass ?items 0"
  let ?st0 = "\<lparr> total_dirs = ?total, processed_dirs = 0, progress_calls = [],
             comic_chapters = [], scanner_of = sc \<rparr>"
  have dirs: "\<forall>item \<in> set ?items. \<forall>d \<in> set (fst (snd item)). is_dir (snd d)"
    by (rule walk_dirs_are_dirs)
  from classify_pass_calls [OF dirs, of cb "max_depth sc" root_path ?st0] obtain st where
    r: "classify_pass cb (max_depth sc) root_path ?items ?st0 = (st, None)"
    and t: "total_dirs st = ?total"
    and p: "processed_dirs st = length ?visited"
    and c: "progress_calls st =
             (if cb \<and> ?total > 0
              then zip (fractions 0 (length ?visited) ?total) (map scan_message ?visited)
              else [])"
    by auto
  have le: "length ?visited \<le> ?total"
    using classified_le_counted [of "max_depth sc" root_path ?items]
    by (simp add: count_pass_sum)
  have c': "progress_calls st =
      (if cb then zip (fractions 0 (length ?visited) ?total) (map scan_message ?visited) else [])"
  proof (cases "?total > 0")
    case True
    with c show ?thesis by simp
  next
    case False
    with le have "?visited = []" by simp
    with c show ?thesis by (simp add: fractions_def)
  qed
  have fst_calls: "cb \<Longrightarrow> map fst (progress_calls st) = fractions 0 (length ?visited) ?total"
    and snd_calls: "cb \<Longrightarrow> map snd (progress_calls st) = map scan_message ?visited"
    using c' by simp_all
  have bounds: "\<forall>c \<in> set (progress_calls st). 0 \<le> fst c \<and> fst c \<le> 1"
  proof
    fix x assume x: "x \<in> set (progress_calls st)"
    then have cb by (auto simp: c' split: if_splits)
    with x fst_calls have "fst x \<in> set (fractions 0 (length ?visited) ?total)"
      by (metis image_eqI list.set_map)
    with fractions_bounds [of 0 "length ?visited" ?total] le
    show "0 \<le> fst x \<and> fst x \<le> 1" by simp
  qed
  have sorted: "sorted (map fst (progress_calls st))"
  proof (cases cb)
    case True
    with fst_calls fractions_sorted show ?thesis by simp
  next
    case False
    with c' show ?thesis by simp
  qed
  have scan: "scan_for_comic_directories sc root_path n cb = (st, None)"
    using r by (simp add: scan_for_comic_directories_def Let_def)
  show ?thesis
    using scan p le t fst_calls snd_calls c' bounds sorted
    by (auto simp: Let_def fractions_def)
qed

theorem scan_progress_calls_witness:
  "snd (scan_for_comic_directories (new_scanner 10) ''Comics'' comics_tree True) = None \<and>
   classified_dirs 10 ''Comics'' (walk (scan_keep 10 ''Comics'') ''Comics'' comics_tree) =
     [''Comics/A'', ''Comics/A/1'', ''Comics/A/2''] \<and>
   total_dirs (fst (scan_for_comic_directories (new_scanner 10) ''Comics'' comics_tree True)) = 4 \<and>
   map fst (progress_calls
     (fst (scan_for_comic_directories (new_scanner 10) ''Comics'' comics_tree True))) =
     [1 / 4, 1 / 2, 3 / 4] \<and>
   sorted (map fst (progress_calls
     (fst (scan_for_comic_directories (new_scanner 10) ''Comics'' comics_tree True))))"
proof -
  have v: "classified_dirs 10 ''Comics'' (walk (scan_keep 10 ''Comics'') ''Comics'' comics_tree) =
      [''Comics/A'', ''Comics/A/1'', ''Comics/A/2'']"
    unfolding comics_tree_def by code_simp
  have t: "total_dirs (fst (scan_for_comic_directories (new_scanner 10) ''Comics'' comics_tree True)) = 4"
    unfolding comics_tree_def by code_simp
  have f: "map fst (progress_calls
      (fst (scan_for_comic_directories (new_scanner 10) ''Comics'' comics_tree True))) =
      [1 / 4, 1 / 2, 3 / 4]"
    unfolding comics_tree_def by code_simp
  have d: "max_depth (new_scanner 10) = 10"
    by (simp add: new_scanner_def)
  show ?thesis
    using scan_progress_calls [of "new_scanner 10" "''Comics''" comics_tree True] v t f d
    by (auto simp: Let_def)
qed

section \<open>Properties of the task life cycle\<close>

lemma task_completed_frame:
  "tasks (task_completed fid m) = tasks m \<and>
   all_futures (task_completed fid m) = all_futures m \<and>
   executor (task_completed fid m) = executor m \<and>
   running (task_completed fid m) = running m \<and>
   paused (task_completed fid m) = paused m \<and>
   total_tasks (task_completed fid m) = total_tasks m \<and>
   completed_tasks (task_completed fid m) = completed_tasks m + 1"
  by (simp add: task_completed_def Let_def)

lemma cancel_futures_frame:
  "tasks (cancel_futures fids m) = tasks m \<and>
   executor (cancel_futures fids m) = executor m \<and>
   running (cancel_futures fids m) = running m \<and>
   paused (cancel_futures fids m) = paused m \<and>
   total_tasks (cancel_futures fids m) = total_tasks m \<and>
   completed_tasks (cancel_futures fids m) = completed_tasks m + length fids \<and>
   length (all_futures (cancel_futures fids m)) = length (all_futures m)"
  by (induction fids arbitrary: m) (simp_all add: task_completed_frame)




lemma pending_list:
  "j \<in> set (filter (\<lambda>i. status (ts ! i) = Pending) [0..<length ts]) \<longleftrightarrow>
     j < length ts \<and> status (ts ! j) = Pending"
  by auto



























text \<open>
  Off the protocol a task can run twice: \<open>resume\<close> before \<open>start\<close> submits the pending
  tasks to a first pool and \<open>start\<close> submits them again to a second, so a completed task
  is set to running once more.
\<close>

lemma rerun_after_early_resume:
  "map_option (\<lambda>m. status (tasks m ! 0))
     (run [add1, add2, Pause, Resume, Start, WorkerBegin 0 1, WorkerFinish 0 sample_world] pool0)
     = Some Completed \<and>
   map_option (\<lambda>m. status (tasks m ! 0))
     (run [add1, add2, Pause, Resume, Start, WorkerBegin 0 1, WorkerFinish 0 sample_world,
           WorkerBegin 2 3] pool0)
     = Some Running"
  by code_simp

section \<open>Properties of the completion counter\<close>

lemma worker_finish_counts_once:
  "worker_finish fid w m = Some m' \<Longrightarrow> completed_tasks m' = completed_tasks m + 1"
  by (auto simp: worker_finish_def Let_def task_completed_frame split: if_splits sum.splits)

lemma pause_counts_cancelled:
  "executor m = Some p \<Longrightarrow>
   completed_tasks (pause m) = completed_tasks m + length (queued_in p m)"
  by (simp add: pause_def shutdown_def cancel_futures_frame queued_in_def)

text \<open>
  C1, the code at a failing run. Two tasks on a pool of one worker: \<open>pause\<close> while the first
  is executing cancels the queued future of the second, whose done callback raises the
  counter; the first task finishes; after \<open>resume\<close> the second task runs and finishes. The
  run keeps to the protocol, each task is executed once, and the counter ends at 3 for a
  total of 2.
\<close>

theorem pause_resume_counts_twice:
  "run_ok paused_run pool0 \<and>
   map_option total_tasks (run paused_run pool0) = Some 2 \<and>
   map_option completed_tasks (run paused_run pool0) = Some 3 \<and>
   map_option get_progress (run paused_run pool0) = Some (3 / 2)"
  unfolding paused_run_def by code_simp

text \<open>
  C10, the code at a failing state. With one task executing and one queued, \<open>pause\<close>
  leaves the pool running and raises the completed counter from 0 to 1.
\<close>

theorem pause_changes_counter:
  "running queued_state \<and> completed_tasks queued_state = 0 \<and>
   completed_tasks (pause queued_state) = 1 \<and> running (pause queued_state)"
  unfolding queued_state_def by code_simp

text \<open>
  What \<open>pause\<close> keeps: the running flag, the tasks and the total. It sets the paused flag
  and drops the executor; so on a running pool a \<open>start\<close> after it changes nothing.
\<close>

lemma pause_frame:
  "running (pause m) = running m \<and> tasks (pause m) = tasks m \<and>
   total_tasks (pause m) = total_tasks m \<and> paused (pause m) \<and>
   executor (pause m) = None \<and>
   (running m \<longrightarrow> start (pause m) = pause m)"
proof -
  have "running (pause m) = running m" "tasks (pause m) = tasks m" "paused (pause m)"
    "total_tasks (pause m) = total_tasks m" "executor (pause m) = None"
    by (simp_all add: pause_def shutdown_def cancel_futures_frame split: option.splits)
  then show ?thesis by (simp add: start_def)
qed

end
